theory Spec2Isabelle
  imports Complex_Main "HOL-Library.Multiset"
begin

section \<open>Python values and exceptions\<close>

text \<open>
  The program is Python 2 (it uses \<open>xrange\<close>, and \<open>/\<close> on integers is floor
  division).  Python integers are unbounded and are modelled by \<open>int\<close>; \<open>div\<close> and
  \<open>mod\<close> on \<open>int\<close> round towards minus infinity exactly as Python's \<open>/\<close> and
  \<open>%\<close> do.  Floating-point numbers are modelled by the rationals: every finite float is
  a rational number, comparisons are exact, and the arithmetic is read without rounding.
  Every exception the modelled code can raise is a value of \<open>error\<close>.
\<close>

datatype error =
    IndexError
  | ValueError
  | AssertionError
  | ZeroDivisionError
  | OverflowError
  | Cv2Error

text \<open>\<open>int(x)\<close> on a float truncates towards zero.\<close>

definition py_int_of_float :: "rat \<Rightarrow> int" where
  "py_int_of_float x = (if 0 \<le> x then \<lfloor>x\<rfloor> else \<lceil>x\<rceil>)"

text \<open>\<open>xs[:k]\<close>: a negative bound counts from the end of the list.\<close>

definition py_slice_to :: "'a list \<Rightarrow> int \<Rightarrow> 'a list" where
  "py_slice_to xs k =
     (if 0 \<le> k then take (nat k) xs else take (nat (int (length xs) + k)) xs)"

text \<open>
  \<open>list.sort(key=..., reverse=...)\<close> is a stable sort.  With \<open>reverse=True\<close> the list
  is reversed, sorted stably in ascending order, and reversed again, which is how elements
  with equal keys keep their original relative order.  \<open>sort_key\<close> is a stable
  insertion sort.
\<close>

definition py_sort_key :: "('a \<Rightarrow> 'k::linorder) \<Rightarrow> bool \<Rightarrow> 'a list \<Rightarrow> 'a list" where
  "py_sort_key key reverse xs =
     (if reverse then rev (sort_key key (rev xs)) else sort_key key xs)"

section \<open>The hard-example miner\<close>

text \<open>
  Lines 120 to 124 of \<open>_init\<close>:
  \<^verbatim>\<open>
  self.virtual_batch_size = self.param.batch_size * self.solver.param.iter_size
  num_hardest = int(self.num_samples * self.param.sampler_fraction)
  num_hardest = ((num_hardest / self.virtual_batch_size) + 1) * self.virtual_batch_size
  self.num_hardest = np.minimum(self.num_samples, num_hardest)
  \<close>
\<close>

definition init_virtual_batch_size :: "int \<Rightarrow> int \<Rightarrow> int" where
  "init_virtual_batch_size batch_size iter_size = batch_size * iter_size"



text \<open>
  \<open>_find_hardest_samples\<close>.  The losses are one float per candidate.  \<open>np.min\<close> of an
  empty array raises \<open>ValueError\<close>; when the losses are not all equal (their standard
  deviation is positive) the plot reads \<open>indexed_losses[-1]\<close>, which raises
  \<open>IndexError\<close> on an empty selection.  The log line and the plot have no other effect
  on the result.
\<close>

definition std_positive :: "rat list \<Rightarrow> bool" where
  "std_positive losses = (\<exists>l \<in> set losses. l \<noteq> hd losses)"

definition indexed_losses_of :: "int \<Rightarrow> rat list \<Rightarrow> (nat \<times> rat) list" where
  "indexed_losses_of num_hardest losses =
     py_slice_to (py_sort_key snd True (enumerate 0 losses)) num_hardest"

definition find_hardest_samples :: "int \<Rightarrow> rat list \<Rightarrow> error + nat list" where
  "find_hardest_samples num_hardest losses =
     (let indexed_losses = indexed_losses_of num_hardest losses;
          sample_ids = map fst indexed_losses
      in if losses = [] then Inl ValueError
         else if std_positive losses \<and> indexed_losses = [] then Inl IndexError
         else Inr sample_ids)"

text \<open>
  \<open>_train\<close>: the two assertions, then \<open>len(ids) / virtual_batch_size\<close> solver steps.
  The result is the number of solver steps taken.
\<close>

definition train :: "int \<Rightarrow> nat list \<Rightarrow> error + int" where
  "train vbs ids =
     (if \<not> (int (length ids) \<ge> vbs) then Inl AssertionError
      else if vbs = 0 then Inl ZeroDivisionError
      else if int (length ids) mod vbs \<noteq> 0 then Inl AssertionError
      else Inr (int (length ids) div vbs))"


text \<open>
  The specification's rule for the keep count: \<open>ceil_to_multiple(x, g)\<close> is the smallest
  multiple of \<open>g\<close> that is at least \<open>x\<close>, and the count is that value clamped to the
  number of losses.
\<close>

definition spec_ceil_to_multiple :: "rat \<Rightarrow> int \<Rightarrow> int" where
  "spec_ceil_to_multiple x g = \<lceil>x / of_int g\<rceil> * g"


section \<open>The retrieval evaluator\<close>

text \<open>
  The local variables of \<open>_compute_ap\<close>.  \<open>j\<close> is incremented once in every
  execution of the loop body, so its final value is the number of positions walked.
\<close>

record ap_state =
  loc_cmc :: "rat list"
  old_recall :: rat
  old_precision :: rat
  loc_ap :: rat
  intersect_size :: nat
  j :: nat
  num_good_now :: nat

definition compute_ap_init :: "nat list \<Rightarrow> ap_state" where
  "compute_ap_init top_inds =
     \<lparr>loc_cmc = replicate (length top_inds) 0, old_recall = 0, old_precision = 1,
      loc_ap = 0, intersect_size = 0, j = 0, num_good_now = 0\<rparr>"

text \<open>
  One execution of the loop body, up to and including \<open>j += 1\<close>, at position \<open>n\<close>
  with the gallery index \<open>top_index\<close>.  \<open>loc_cmc[n:] = 1\<close> sets every entry from
  position \<open>n\<close> on.
\<close>

definition compute_ap_body :: "nat list \<Rightarrow> nat \<Rightarrow> nat \<Rightarrow> ap_state \<Rightarrow> ap_state" where
  "compute_ap_body good_inds n top_index st =
     (let num_good_total = length good_inds;
          flag = (top_index \<in> set good_inds);
          cmc = (if flag then take n (loc_cmc st) @ replicate (length (loc_cmc st) - n) 1
                 else loc_cmc st);
          good_now = (if flag then num_good_now st + 1 else num_good_now st);
          isect = (if flag then intersect_size st + 1 else intersect_size st);
          recall = (if num_good_total > 0 then of_nat isect / of_nat num_good_total else 0);
          precision = of_nat isect / of_nat (j st + 1)
      in \<lparr>loc_cmc = cmc, old_recall = recall, old_precision = precision,
          loc_ap = loc_ap st + (1 / 2) * (recall - old_recall st) * (old_precision st + precision),
          intersect_size = isect, j = j st + 1, num_good_now = good_now\<rparr>)"

text \<open>The \<open>for\<close> loop over \<open>enumerate(top_inds)\<close>, with its \<open>break\<close>.\<close>

fun compute_ap_loop :: "nat list \<Rightarrow> (nat \<times> nat) list \<Rightarrow> ap_state \<Rightarrow> ap_state" where
  "compute_ap_loop good_inds [] st = st"
| "compute_ap_loop good_inds ((n, top_index) # rest) st =
     (let st' = compute_ap_body good_inds n top_index st
      in if num_good_now st' = length good_inds then st'
         else compute_ap_loop good_inds rest st')"

definition compute_ap_final :: "nat list \<Rightarrow> nat list \<Rightarrow> ap_state" where
  "compute_ap_final good_inds top_inds =
     compute_ap_loop good_inds (enumerate 0 top_inds) (compute_ap_init top_inds)"

definition compute_ap :: "nat list \<Rightarrow> nat list \<Rightarrow> rat \<times> rat list" where
  "compute_ap good_inds top_inds =
     (let st = compute_ap_final good_inds top_inds in (loc_ap st, loc_cmc st))"

text \<open>
  The same function with the \<open>break\<close> removed: the loop walks every position.  This is
  the variant the specification compares the implementation with.
\<close>

fun full_walk_loop :: "nat list \<Rightarrow> (nat \<times> nat) list \<Rightarrow> ap_state \<Rightarrow> ap_state" where
  "full_walk_loop good_inds [] st = st"
| "full_walk_loop good_inds ((n, top_index) # rest) st =
     full_walk_loop good_inds rest (compute_ap_body good_inds n top_index st)"

definition compute_ap_full_walk :: "nat list \<Rightarrow> nat list \<Rightarrow> rat \<times> rat list" where
  "compute_ap_full_walk good_inds top_inds =
     (let st = full_walk_loop good_inds (enumerate 0 top_inds) (compute_ap_init top_inds)
      in (loc_ap st, loc_cmc st))"

text \<open>
  The per-query part of \<open>_calc_metrics\<close>: the gallery positions whose label equals the
  query's label, the gallery positions ranked by ascending distance (a stable sort), and
  \<open>_compute_ap\<close> on the two.  Labels are floats holding identity numbers and are
  compared after \<open>int(...)\<close>; \<open>scores\<close> is the column of the distance matrix for the
  query, one entry per gallery item, and \<open>rank_size\<close> is its length.
\<close>

definition good_indices_of :: "rat list \<Rightarrow> rat \<Rightarrow> nat list" where
  "good_indices_of gallery_labels query_label_blob =
     (let query_label = py_int_of_float query_label_blob
      in map fst (filter (\<lambda>(gallery_id, gallery_label). py_int_of_float gallery_label = query_label)
                    (enumerate 0 gallery_labels)))"

definition top_indices_of :: "rat list \<Rightarrow> nat list" where
  "top_indices_of scores =
     (let rank_size = int (length scores);
          indexed_scores = py_sort_key snd False (enumerate 0 scores)
      in map fst (py_slice_to indexed_scores rank_size))"

definition query_metrics :: "rat list \<Rightarrow> rat \<Rightarrow> rat list \<Rightarrow> rat \<times> rat list" where
  "query_metrics gallery_labels query_label_blob scores =
     compute_ap (good_indices_of gallery_labels query_label_blob) (top_indices_of scores)"

definition query_walk_length :: "rat list \<Rightarrow> rat \<Rightarrow> rat list \<Rightarrow> nat" where
  "query_walk_length gallery_labels query_label_blob scores =
     j (compute_ap_final (good_indices_of gallery_labels query_label_blob) (top_indices_of scores))"

text \<open>The recall after \<open>isect\<close> good indices have been met, as the loop body computes it.\<close>

definition recall_of :: "nat list \<Rightarrow> nat \<Rightarrow> rat" where
  "recall_of good_inds isect =
     (if length good_inds > 0 then of_nat isect / of_nat (length good_inds) else 0)"

section \<open>The training loop\<close>

text \<open>
  The attributes of the solver wrapper that \<open>_solve\<close> reads and never writes:
  \<open>solver.param.max_iter\<close>, \<open>param.max_difficulty\<close>, \<open>param.max_difficulty_iter\<close>, and
  \<open>num_hardest\<close> and \<open>virtual_batch_size\<close> as \<open>_init\<close> has set them.
\<close>

record solver_settings =
  max_iter :: int
  max_difficulty :: rat
  max_difficulty_iter :: int
  num_hardest :: int
  virtual_batch_size :: int

text \<open>
  The network is outside the program.  What \<open>_solve\<close> observes of it in the
  meta-iteration \<open>t\<close> is the value \<open>_test_model\<close> returns (the rank-1 accuracy, or
  \<open>None\<close> when there is no query and gallery data; its log line reads \<open>cmc[4]\<close> and can
  raise) and the losses \<open>_estimate_losses\<close> returns for the candidate pool.
\<close>

record trainer =
  test_model :: "int \<Rightarrow> error + rat option"
  estimate_losses :: "int \<Rightarrow> rat list"

text \<open>
  The variables \<open>_solve\<close> updates: \<open>self.train_iter\<close>, \<open>self.difficulty\<close>, the locals
  \<open>best_rank1_acc\<close> and \<open>best_iter\<close>, and the log of \<open>_save_state\<close>: the values of
  \<open>train_iter\<close> at which a snapshot was written.
\<close>

record solve_state =
  train_iter :: int
  difficulty :: rat
  best_rank1_acc :: rat
  best_iter :: int
  snapshots :: "int list"

text \<open>
  \<open>rank1_acc > best_rank1_acc\<close>, then the two assignments.  In Python 2 \<open>None\<close> is
  smaller than every number, so without an evaluation nothing is updated.
\<close>

definition update_best :: "rat option \<Rightarrow> solve_state \<Rightarrow> solve_state" where
  "update_best rank1_acc st =
     (case rank1_acc of
        None \<Rightarrow> st
      | Some acc \<Rightarrow>
          if acc > best_rank1_acc st
          then st\<lparr>best_rank1_acc := acc, best_iter := train_iter st - 1\<rparr>
          else st)"

text \<open>One execution of the body of the \<open>while\<close> loop of \<open>_solve\<close>.\<close>

definition meta_iteration :: "solver_settings \<Rightarrow> trainer \<Rightarrow> solve_state \<Rightarrow> error + solve_state" where
  "meta_iteration p tr st =
     (if max_difficulty_iter p = 0 then Inl ZeroDivisionError
      else
        let d = of_int (train_iter st) * max_difficulty p / of_int (max_difficulty_iter p);
            st1 = st\<lparr>difficulty := min (max_difficulty p) d\<rparr>
        in case test_model tr (train_iter st1) of
             Inl e \<Rightarrow> Inl e
           | Inr rank1_acc \<Rightarrow>
               (let st2 = update_best rank1_acc st1;
                    loss_values = estimate_losses tr (train_iter st2)
                in case find_hardest_samples (num_hardest p) loss_values of
                     Inl e \<Rightarrow> Inl e
                   | Inr hard_sample_ids \<Rightarrow>
                       (case train (virtual_batch_size p) hard_sample_ids of
                          Inl e \<Rightarrow> Inl e
                        | Inr steps \<Rightarrow>
                            Inr (st2\<lparr>snapshots := snapshots st2 @ [train_iter st2],
                                     train_iter := train_iter st2 + 1\<rparr>))))"

text \<open>The \<open>while\<close> loop; an exception ends the run.\<close>

function solve_loop :: "solver_settings \<Rightarrow> trainer \<Rightarrow> solve_state \<Rightarrow> error + solve_state" where
  "solve_loop p tr st =
     (if train_iter st < max_iter p
      then (case meta_iteration p tr st of
              Inl e \<Rightarrow> Inl e
            | Inr st' \<Rightarrow> solve_loop p tr st')
      else Inr st)"
  by pat_completeness auto
termination
  by (relation "measure (\<lambda>(p, tr, st). nat (max_iter p - train_iter st))")
    (auto simp: meta_iteration_def update_best_def Let_def
      split: if_splits sum.splits option.splits)

declare solve_loop.simps [simp del]

text \<open>\<open>_solve\<close> after \<open>_reset_states\<close>: \<open>train_iter = 0\<close>, no best accuracy yet.\<close>

definition solve :: "solver_settings \<Rightarrow> trainer \<Rightarrow> error + solve_state" where
  "solve p tr =
     solve_loop p tr \<lparr>train_iter = 0, difficulty = 0, best_rank1_acc = 0, best_iter = 0,
                      snapshots = []\<rparr>"

section \<open>The corpus index\<close>

text \<open>
  \<open>str.split()\<close> without arguments splits at runs of whitespace and yields no empty
  token; \<open>str.strip()\<close> removes whitespace at both ends.  For a byte string the
  whitespace characters are the space and the characters 9 to 13.
\<close>

definition is_space :: "char \<Rightarrow> bool" where
  "is_space c = (c = CHR '' '' \<or> c = CHR 0x09 \<or> c = CHR 0x0A \<or> c = CHR 0x0B
     \<or> c = CHR 0x0C \<or> c = CHR 0x0D)"

definition py_strip :: "string \<Rightarrow> string" where
  "py_strip s = rev (dropWhile is_space (rev (dropWhile is_space s)))"

fun split_from :: "string \<Rightarrow> string \<Rightarrow> string list" where
  "split_from cur [] = (if cur = [] then [] else [cur])"
| "split_from cur (c # cs) =
     (if is_space c then (if cur = [] then split_from [] cs else cur # split_from [] cs)
      else split_from (cur @ [c]) cs)"

definition py_split :: "string \<Rightarrow> string list" where
  "py_split s = split_from [] s"

text \<open>
  \<open>int(s)\<close> on a string without surrounding whitespace (a token has none): an optional
  sign and at least one decimal digit (the characters 48 to 57); anything else raises
  \<open>ValueError\<close>, here \<open>None\<close>.
\<close>

definition is_digit :: "char \<Rightarrow> bool" where
  "is_digit c = ((48::nat) \<le> of_char c \<and> (of_char c :: nat) \<le> 57)"

definition digit_value :: "char \<Rightarrow> int" where
  "digit_value c = int (of_char c) - 48"

definition digits_value :: "string \<Rightarrow> int option" where
  "digits_value ds =
     (if ds \<noteq> [] \<and> list_all is_digit ds
      then Some (foldl (\<lambda>acc c. 10 * acc + digit_value c) 0 ds)
      else None)"

definition py_int_of_string :: "string \<Rightarrow> int option" where
  "py_int_of_string s =
     (case s of
        [] \<Rightarrow> None
      | c # cs \<Rightarrow>
          if c = CHR ''-'' then map_option uminus (digits_value cs)
          else if c = CHR ''+'' then digits_value cs
          else digits_value s)"

text \<open>
  \<open>SampleDesc\<close> and the two dictionaries of \<open>SampleDataFromDisk\<close>.
\<close>

record sample_desc =
  path :: string
  label :: int

record corpus =
  all_samples :: "nat \<rightharpoonup> sample_desc"
  ids_by_label :: "int \<rightharpoonup> nat list"

definition empty_corpus :: corpus where
  "empty_corpus = \<lparr>all_samples = Map.empty, ids_by_label = Map.empty\<rparr>"

definition get_ids_by_labels :: "corpus \<Rightarrow> int \<Rightarrow> nat list" where
  "get_ids_by_labels c lbl = (case ids_by_label c lbl of None \<Rightarrow> [] | Some ids \<Rightarrow> ids)"

text \<open>
  The body of the loop over the lines of the manifest, for line number \<open>i\<close>:
  \<open>arr[0]\<close> and \<open>arr[1]\<close> raise \<open>IndexError\<close> when the line has too few tokens,
  \<open>int(arr[1])\<close> raises \<open>ValueError\<close>; further tokens are never read.
\<close>

definition load_line :: "nat \<Rightarrow> string \<Rightarrow> corpus \<Rightarrow> error + corpus" where
  "load_line i line c =
     (let arr = py_split (py_strip line)
      in if length arr < 1 then Inl IndexError
         else if length arr < 2 then Inl IndexError
         else case py_int_of_string (arr ! 1) of
                None \<Rightarrow> Inl ValueError
              | Some lbl \<Rightarrow>
                  Inr (c\<lparr>all_samples := (all_samples c)(i \<mapsto> \<lparr>path = arr ! 0, label = lbl\<rparr>),
                         ids_by_label := (ids_by_label c)(lbl \<mapsto> get_ids_by_labels c lbl @ [i])\<rparr>))"

fun load_lines :: "nat \<Rightarrow> string list \<Rightarrow> corpus \<Rightarrow> error + corpus" where
  "load_lines i [] c = Inr c"
| "load_lines i (line # all_lines) c =
     (case load_line i line c of
        Inl e \<Rightarrow> Inl e
      | Inr c' \<Rightarrow> load_lines (i + 1) all_lines c')"

text \<open>\<open>SampleDataFromDisk.__init__\<close> on the lines \<open>f.readlines()\<close> returns.\<close>

definition load :: "string list \<Rightarrow> error + corpus" where
  "load all_lines = load_lines 0 all_lines empty_corpus"

text \<open>The lines on which the loop body raises.\<close>

definition line_fails :: "string \<Rightarrow> bool" where
  "line_fails line = (length (py_split (py_strip line)) < 2
     \<or> py_int_of_string (py_split (py_strip line) ! 1) = None)"

text \<open>
  In a corpus that \<open>__init__\<close> has built, a label is a key of \<open>_ids_by_label\<close> only
  with at least one id.
\<close>

definition labels_nonempty :: "corpus \<Rightarrow> bool" where
  "labels_nonempty c = (\<forall>lbl ids. ids_by_label c lbl = Some ids \<longrightarrow> ids \<noteq> [])"

text \<open>
  What the specification asks of a manifest line: exactly two whitespace-separated
  tokens, the second an integer.
\<close>

definition spec_line_ok :: "string \<Rightarrow> bool" where
  "spec_line_ok line =
     (let arr = py_split line in length arr = 2 \<and> py_int_of_string (arr ! 1) \<noteq> None)"

section \<open>The balanced sampler\<close>

text \<open>
  The random choices of \<open>_sample_data_ids\<close> are parameters of the model: \<open>all_labels\<close>
  is the label list after \<open>np.random.shuffle\<close>, some permutation of the dictionary's
  keys, and \<open>rnd k\<close> is the number behind the \<open>k\<close>-th call of \<open>np.random.choice\<close>.
  Every call appends one id, so \<open>k\<close> is the length of \<open>data_ids\<close> at the call.
\<close>

definition random_choice :: "(nat \<Rightarrow> nat) \<Rightarrow> nat \<Rightarrow> nat list \<Rightarrow> nat" where
  "random_choice rnd k label_ids = label_ids ! (rnd k mod length label_ids)"

text \<open>The \<open>for\<close> loop over the labels: one sweep.\<close>

fun sweep :: "corpus \<Rightarrow> (nat \<Rightarrow> nat) \<Rightarrow> int list \<Rightarrow> nat list \<Rightarrow> nat list" where
  "sweep c rnd [] data_ids = data_ids"
| "sweep c rnd (lbl # all_labels) data_ids =
     (let label_ids = get_ids_by_labels c lbl
      in if length label_ids \<le> 0 then sweep c rnd all_labels data_ids
         else sweep c rnd all_labels (data_ids @ [random_choice rnd (length data_ids) label_ids]))"

text \<open>
  The \<open>while\<close> loop.  It does not end when no label has an id and \<open>num_samples\<close> is
  positive, so it is a partial function: \<open>None\<close> is the run that never returns.
\<close>

partial_function (option) sample_loop ::
  "corpus \<Rightarrow> (nat \<Rightarrow> nat) \<Rightarrow> int list \<Rightarrow> int \<Rightarrow> nat list \<Rightarrow> nat list option" where
  "sample_loop c rnd all_labels num_samples data_ids =
     (if int (length data_ids) < num_samples
      then sample_loop c rnd all_labels num_samples (sweep c rnd all_labels data_ids)
      else Some data_ids)"

definition sample_data_ids ::
  "corpus \<Rightarrow> (nat \<Rightarrow> nat) \<Rightarrow> int list \<Rightarrow> int \<Rightarrow> nat list option" where
  "sample_data_ids c rnd all_labels num_samples =
     map_option (\<lambda>data_ids. py_slice_to data_ids num_samples)
       (sample_loop c rnd all_labels num_samples [])"

text \<open>\<open>self.num_samples\<close> as \<open>__init__\<close> computes it from the number of labels.\<close>

definition get_num_labels :: "corpus \<Rightarrow> nat" where
  "get_num_labels c = card (dom (ids_by_label c))"

definition init_num_samples :: "corpus \<Rightarrow> int \<Rightarrow> int" where
  "init_num_samples c num_images = int (get_num_labels c) * num_images"

text \<open>The labels a sweep does not skip.\<close>

definition live_labels :: "corpus \<Rightarrow> int list \<Rightarrow> int list" where
  "live_labels c all_labels = filter (\<lambda>lbl. get_ids_by_labels c lbl \<noteq> []) all_labels"

section \<open>The augmentation engine\<close>

subsection \<open>Arrays, views and the store\<close>

text \<open>
  An image is a numpy array of shape \<open>(height, width, channels)\<close>: a list of rows, a row
  a list of pixels, a pixel its list of channel values.  The values are integers; an array
  of type \<open>uint8\<close> holds values from 0 to 255.
\<close>

type_synonym plane = "int list list"
type_synonym image = "int list list list"

definition has_shape :: "image \<Rightarrow> nat \<Rightarrow> nat \<Rightarrow> nat \<Rightarrow> bool" where
  "has_shape img h w ch =
     (length img = h \<and> (\<forall>row \<in> set img. length row = w \<and> (\<forall>px \<in> set row. length px = ch)))"

definition img_height :: "image \<Rightarrow> nat" where
  "img_height img = length img"

definition img_width :: "image \<Rightarrow> nat" where
  "img_width img = (case img of [] \<Rightarrow> 0 | row # rows \<Rightarrow> length row)"

definition img_channels :: "image \<Rightarrow> nat" where
  "img_channels img =
     (case img of [] \<Rightarrow> 0 | row # rows \<Rightarrow> (case row of [] \<Rightarrow> 0 | px # pxs \<Rightarrow> length px))"

definition pixels_in_range :: "image \<Rightarrow> bool" where
  "pixels_in_range img = (\<forall>row \<in> set img. \<forall>px \<in> set row. \<forall>v \<in> set px. 0 \<le> v \<and> v \<le> 255)"

text \<open>
  Python variables hold references.  The store is the list of the array buffers allocated
  so far; a reference names a buffer and says whether it is the buffer itself or the view
  \<open>[:, ::-1, :]\<close> on it, whose columns run backwards.  Reading through a view and writing
  through a view go to the buffer; a new array is a new buffer at the end of the store.
\<close>

type_synonym store = "image list"

record aref =
  buf :: nat
  flipped :: bool

definition deref :: "store \<Rightarrow> aref \<Rightarrow> image" where
  "deref s a = (if flipped a then map rev (s ! buf a) else s ! buf a)"

definition assign :: "store \<Rightarrow> aref \<Rightarrow> image \<Rightarrow> store" where
  "assign s a img = s[buf a := (if flipped a then map rev img else img)]"

definition alloc :: "store \<Rightarrow> image \<Rightarrow> store \<times> aref" where
  "alloc s img = (s @ [img], \<lparr>buf = length s, flipped = False\<rparr>)"

definition bind_err :: "error + 'a \<Rightarrow> ('a \<Rightarrow> error + 'b) \<Rightarrow> error + 'b" where
  "bind_err m f = (case m of Inl e \<Rightarrow> Inl e | Inr x \<Rightarrow> f x)"

subsection \<open>Python and numpy primitives\<close>

text \<open>
  \<open>xs[a:b]\<close>: a negative bound counts from the end, and both bounds are clipped to the
  list.
\<close>

definition slice_bounds :: "int \<Rightarrow> int \<Rightarrow> nat \<Rightarrow> nat \<times> nat" where
  "slice_bounds a b n =
     (let start = (if a < 0 then max (a + int n) 0 else min a (int n));
          stop = (if b < 0 then max (b + int n) 0 else min b (int n))
      in (nat start, nat (max start stop)))"

definition py_slice :: "'a list \<Rightarrow> int \<Rightarrow> int \<Rightarrow> 'a list" where
  "py_slice xs a b = (case slice_bounds a b (length xs) of (i, k) \<Rightarrow> take (k - i) (drop i xs))"

text \<open>
  The random generator is a parameter of the model: a tape of the raw samples it
  produces.  \<open>np.random.uniform(low, high)\<close> scales a sample \<open>u\<close> of the unit interval;
  \<open>np.random.randint(low, high)\<close> raises \<open>ValueError\<close> unless \<open>low < high\<close> and
  otherwise reduces a raw number \<open>r\<close> into the range.
\<close>

definition uniform :: "rat \<Rightarrow> rat \<Rightarrow> rat \<Rightarrow> rat" where
  "uniform low high u = low + (high - low) * u"

definition randint :: "int \<Rightarrow> int \<Rightarrow> nat \<Rightarrow> error + int" where
  "randint low high r =
     (if low < high then Inr (low + int r mod (high - low)) else Inl ValueError)"

text \<open>
  \<open>img[img > 255] = 255; img[img < 0] = 0\<close>, and \<open>astype(np.uint8)\<close>, which keeps the
  low eight bits.
\<close>

definition clip_pixel :: "int \<Rightarrow> int" where
  "clip_pixel v = (let v1 = (if v > 255 then 255 else v) in if v1 < 0 then 0 else v1)"

definition map_pixels :: "(int \<Rightarrow> int) \<Rightarrow> image \<Rightarrow> image" where
  "map_pixels f img = map (map (map f)) img"

definition astype_uint8 :: "image \<Rightarrow> image" where
  "astype_uint8 img = map_pixels (\<lambda>v. v mod 256) img"

text \<open>
  \<open>img[:, :, ch]\<close> as a value, and the assignment \<open>img[:, :, ch] = pl\<close>, which writes
  element \<open>(r, c)\<close> of the right-hand side into channel \<open>ch\<close> of pixel \<open>(r, c)\<close>.
\<close>

definition get_channel :: "image \<Rightarrow> nat \<Rightarrow> plane" where
  "get_channel img ch = map (map (\<lambda>px. px ! ch)) img"

definition set_channel :: "image \<Rightarrow> nat \<Rightarrow> plane \<Rightarrow> image" where
  "set_channel img ch pl =
     map (\<lambda>(r, row). map (\<lambda>(c, px). px[ch := pl ! r ! c]) (enumerate 0 row)) (enumerate 0 img)"

text \<open>\<open>np.average(img) > t\<close>; the average of an empty array is not a number and compares false.\<close>

definition average_gt :: "image \<Rightarrow> rat \<Rightarrow> bool" where
  "average_gt img t =
     (let vs = concat (concat img)
      in vs \<noteq> [] \<and> of_int (sum_list vs) / of_nat (length vs) > t)"

subsection \<open>Library functions\<close>

text \<open>
  \<open>cv2.resize\<close>, \<open>scipy.ndimage.gaussian_filter\<close> and the gamma curve
  \<open>(np.power(v / 255, gamma) * 255).astype(np.int32)\<close> with
  \<open>gamma = log(0.5 + 2 ** -0.5 * u) / log(0.5 - 2 ** -0.5 * u)\<close> are not part of the
  program; they are parameters of the model.  Their contracts: \<open>cv2.resize\<close> returns an
  image of the requested size with the channels of its source, and the Gaussian filter
  returns a plane of the shape of its argument.
\<close>

record externals =
  cv2_resize :: "image \<Rightarrow> nat \<Rightarrow> nat \<Rightarrow> image"
  gaussian_filter :: "plane \<Rightarrow> rat \<Rightarrow> plane"
  gamma_curve :: "rat \<Rightarrow> int \<Rightarrow> int"

definition resize_contract :: "externals \<Rightarrow> bool" where
  "resize_contract ext =
     (\<forall>img w h. has_shape (cv2_resize ext img w h) h w (img_channels img))"

text \<open>\<open>cv2.resize(img, (width, height))\<close> raises on an empty source and on an empty target size.\<close>

definition resize_checked :: "externals \<Rightarrow> image \<Rightarrow> int \<Rightarrow> int \<Rightarrow> error + image" where
  "resize_checked ext img width height =
     (if img_height img = 0 \<or> img_width img = 0 \<or> width \<le> 0 \<or> height \<le> 0
      then Inl Cv2Error
      else Inr (cv2_resize ext img (nat width) (nat height)))"

section \<open>Properties of the hard-example miner\<close>

subsection \<open>Stable sorting by loss\<close>

lemma insort_key_lex:
  assumes "sorted_wrt (\<lambda>a b. f a < f b \<or> (f a = f b \<and> g b < g a)) ys"
    and "\<forall>y \<in> set ys. g y < g z"
  shows "sorted_wrt (\<lambda>a b. f a < f b \<or> (f a = f b \<and> g b < g a)) (insort_key f z ys)"
  using assms
proof (induction ys)
  case Nil
  then show ?case by simp
next
  case (Cons y ys)
  show ?case
  proof (cases "f z \<le> f y")
    case True
    have "\<forall>w \<in> set (y # ys). f z < f w \<or> (f z = f w \<and> g w < g z)"
      using True Cons.prems by fastforce
    then show ?thesis using True Cons.prems(1) by simp
  next
    case False
    have "sorted_wrt (\<lambda>a b. f a < f b \<or> (f a = f b \<and> g b < g a)) (insort_key f z ys)"
      using Cons by simp
    moreover have "\<forall>w \<in> set (insort_key f z ys). f y < f w \<or> (f y = f w \<and> g w < g y)"
      using False Cons.prems(1) by (auto simp: set_insort_key)
    ultimately show ?thesis using False by simp
  qed
qed

lemma sort_key_lex:
  fixes g :: "'a \<Rightarrow> nat"
  assumes "sorted_wrt (\<lambda>a b. g b < g a) zs"
  shows "sorted_wrt (\<lambda>a b. f a < f b \<or> (f a = f b \<and> g b < g a)) (sort_key f zs)"
  using assms
proof (induction zs)
  case Nil
  then show ?case by simp
next
  case (Cons z zs)
  have "\<forall>y \<in> set (sort_key f zs). g y < g z" using Cons.prems by auto
  then show ?case using Cons by (simp add: insort_key_lex)
qed

lemma py_sort_reverse_sorted:
  "sorted_wrt (\<lambda>a b. snd b < snd a \<or> (snd b = snd a \<and> fst a < fst b))
     (py_sort_key snd True (enumerate 0 (losses :: rat list)))"
proof -
  have "sorted_wrt (<) (map fst (enumerate 0 losses))" by (simp add: sorted_wrt_iff_nth_less)
  then have "sorted_wrt (\<lambda>a b. fst a < fst b) (enumerate 0 losses)"
    by (simp only: sorted_wrt_map)
  then have "sorted_wrt (\<lambda>a b. fst b < fst a) (rev (enumerate 0 losses))"
    by (simp add: sorted_wrt_rev)
  then have "sorted_wrt (\<lambda>a b. snd a < snd b \<or> (snd a = snd b \<and> fst b < fst a))
      (sort_key snd (rev (enumerate 0 losses)))"
    by (rule sort_key_lex)
  then show ?thesis
    by (simp only: py_sort_key_def if_True sorted_wrt_rev)
qed

lemma py_sort_key_mset: "mset (py_sort_key key r xs) = mset xs"
  by (simp add: py_sort_key_def)

lemma py_sort_key_set: "set (py_sort_key key r xs) = set xs"
  by (simp add: py_sort_key_def)

lemma py_sort_key_length: "length (py_sort_key key r xs) = length xs"
  by (simp add: py_sort_key_def)

lemma sorted_enumerate_fst:
  "mset (map fst (py_sort_key snd True (enumerate 0 (losses :: rat list)))) = mset [0..<length losses]"
proof -
  have "mset (map fst (py_sort_key snd True (enumerate 0 losses)))
      = mset (map fst (enumerate 0 losses))"
    by (simp only: mset_map py_sort_key_mset)
  then show ?thesis by simp
qed

text \<open>
  Claim C8.  Whenever \<open>_find_hardest_samples\<close> returns (with a keep count that is not
  negative), the ids it returns are \<open>min(len(losses), num_hardest)\<close> distinct pool
  positions; they are ordered by loss descending, with the smaller pool position first
  among equal losses; and every position that is left out has a smaller loss than every
  returned one, or an equal loss and a larger position.
\<close>

theorem miner_ordering:
  assumes "find_hardest_samples k losses = Inr ids" and "0 \<le> k"
  shows "length ids = min (length losses) (nat k) \<and> distinct ids
    \<and> set ids \<subseteq> {..<length losses}
    \<and> (\<forall>i j. i < j \<and> j < length ids \<longrightarrow>
          losses ! (ids ! j) < losses ! (ids ! i)
          \<or> (losses ! (ids ! j) = losses ! (ids ! i) \<and> ids ! i < ids ! j))
    \<and> (\<forall>a \<in> set ids. \<forall>b < length losses. b \<notin> set ids \<longrightarrow>
          losses ! b < losses ! a \<or> (losses ! b = losses ! a \<and> a < b))"
proof -
  define ys where "ys = py_sort_key snd True (enumerate 0 losses)"
  define R where "R = (\<lambda>a b :: nat \<times> rat. snd b < snd a \<or> (snd b = snd a \<and> fst a < fst b))"
  have ids: "ids = map fst (take (nat k) ys)"
    using assms
    by (auto simp: find_hardest_samples_def indexed_losses_of_def py_slice_to_def ys_def Let_def
        split: if_splits)
  have len_ys: "length ys = length losses"
    by (simp add: ys_def py_sort_key_length)
  have set_ys: "set ys = set (enumerate 0 losses)"
    by (simp add: ys_def py_sort_key_set)
  have elem: "fst p < length losses \<and> snd p = losses ! fst p" if "p \<in> set ys" for p
    using that by (auto simp: set_ys in_set_enumerate_eq)
  have perm: "mset (map fst ys) = mset [0..<length losses]"
    unfolding ys_def by (rule sorted_enumerate_fst)
  have dist: "distinct (map fst ys)"
    using perm by (metis distinct_upt mset_eq_imp_distinct_iff)
  have srt: "sorted_wrt R ys"
    unfolding ys_def R_def by (rule py_sort_reverse_sorted)
  have c1: "length ids = min (length losses) (nat k)"
    by (simp add: ids len_ys)
  have c2: "distinct ids"
    unfolding ids using dist by (metis distinct_take take_map)
  have c3: "set ids \<subseteq> {..<length losses}"
    unfolding ids using elem by (auto dest: in_set_takeD)
  have c4: "losses ! (ids ! j) < losses ! (ids ! i)
          \<or> (losses ! (ids ! j) = losses ! (ids ! i) \<and> ids ! i < ids ! j)"
    if "i < j" "j < length ids" for i j
  proof -
    have j: "j < length ys" "j < nat k" and i: "i < length ys" "i < nat k"
      using that by (simp_all add: ids)
    have "R (ys ! i) (ys ! j)"
      using srt that(1) j(1) by (rule sorted_wrt_nth_less)
    moreover have "ids ! i = fst (ys ! i)" "ids ! j = fst (ys ! j)"
      using i j by (simp_all add: ids)
    moreover have "snd (ys ! i) = losses ! fst (ys ! i)" "snd (ys ! j) = losses ! fst (ys ! j)"
      using elem i(1) j(1) by simp_all
    ultimately show ?thesis by (simp add: R_def)
  qed
  have c5: "losses ! b < losses ! a \<or> (losses ! b = losses ! a \<and> a < b)"
    if "a \<in> set ids" "b < length losses" "b \<notin> set ids" for a b
  proof -
    have "a \<in> fst ` set (take (nat k) ys)"
      using that(1) by (simp add: ids)
    then obtain p where p: "p \<in> set (take (nat k) ys)" "a = fst p"
      by blast
    have "(b, losses ! b) \<in> set ys"
      using that(2) by (simp add: set_ys in_set_enumerate_eq)
    then have "(b, losses ! b) \<in> set (take (nat k) ys) \<union> set (drop (nat k) ys)"
      by (metis append_take_drop_id set_append)
    moreover have "(b, losses ! b) \<notin> set (take (nat k) ys)"
      using that(3) by (force simp: ids)
    ultimately have q: "(b, losses ! b) \<in> set (drop (nat k) ys)" by simp
    have "sorted_wrt R (take (nat k) ys @ drop (nat k) ys)"
      using srt by simp
    then have "R p (b, losses ! b)"
      using p(1) q unfolding sorted_wrt_append by blast
    moreover have "snd p = losses ! fst p"
      using elem p(1) by (meson in_set_takeD)
    ultimately show ?thesis by (simp add: R_def p(2))
  qed
  show ?thesis using c1 c2 c3 c4 c5 by blast
qed

theorem miner_ordering_witness:
  "find_hardest_samples 2 [1, 3, 3, 2] = Inr [1, 2] \<and> (0::int) \<le> 2
   \<and> length [1, 2 :: nat] = min (length [1, 3, 3, 2 :: rat]) (nat 2) \<and> distinct [1, 2 :: nat]
   \<and> set [1, 2 :: nat] \<subseteq> {..<length [1, 3, 3, 2 :: rat]}
   \<and> ([1, 3, 3, 2 :: rat] ! ([1, 2] ! 1) < [1, 3, 3, 2] ! ([1, 2] ! 0)
        \<or> ([1, 3, 3, 2 :: rat] ! ([1, 2] ! 1) = [1, 3, 3, 2] ! ([1, 2] ! 0)
            \<and> [1, 2 :: nat] ! 0 < [1, 2] ! 1))
   \<and> ([1, 3, 3, 2 :: rat] ! 3 < [1, 3, 3, 2] ! 2
        \<or> ([1, 3, 3, 2 :: rat] ! 3 = [1, 3, 3, 2] ! 2 \<and> (2::nat) < 3))"
proof -
  have h: "find_hardest_samples 2 [1, 3, 3, 2] = Inr [1, 2]" by code_simp
  have k: "(0::int) \<le> 2" by simp
  note r = miner_ordering[OF h k]
  have a: "length [1, 2 :: nat] = min (length [1, 3, 3, 2 :: rat]) (nat 2)"
    using r by (rule conjunct1)
  have b: "[1, 3, 3, 2 :: rat] ! ([1, 2] ! 1) < [1, 3, 3, 2] ! ([1, 2] ! 0)
        \<or> ([1, 3, 3, 2 :: rat] ! ([1, 2] ! 1) = [1, 3, 3, 2] ! ([1, 2] ! 0)
            \<and> [1, 2 :: nat] ! 0 < [1, 2] ! 1)"
    using r by simp
  have c: "[1, 3, 3, 2 :: rat] ! 3 < [1, 3, 3, 2] ! 2
        \<or> ([1, 3, 3, 2 :: rat] ! 3 = [1, 3, 3, 2] ! 2 \<and> (2::nat) < 3)"
    using r by simp
  show ?thesis using h k a b c by simp
qed

subsection \<open>The size of the mined batch\<close>








subsection \<open>The keep count\<close>

text \<open>The specification's \<open>ceil_to_multiple\<close> is the least multiple at or above its argument.\<close>

lemma spec_ceil_to_multiple_least:
  assumes "1 \<le> g"
  shows "g dvd spec_ceil_to_multiple x g" and "x \<le> of_int (spec_ceil_to_multiple x g)"
    and "g dvd m \<Longrightarrow> x \<le> of_int m \<Longrightarrow> spec_ceil_to_multiple x g \<le> m"
proof -
  have g: "(0::rat) < of_int g" using assms by simp
  show "g dvd spec_ceil_to_multiple x g" by (simp add: spec_ceil_to_multiple_def)
  have "x / of_int g \<le> of_int \<lceil>x / of_int g\<rceil>" by (rule le_of_int_ceiling)
  then have "x \<le> of_int \<lceil>x / of_int g\<rceil> * of_int g"
    using g by (simp only: pos_divide_le_eq)
  then show "x \<le> of_int (spec_ceil_to_multiple x g)"
    by (simp add: spec_ceil_to_multiple_def)
  assume "g dvd m" and xm: "x \<le> of_int m"
  then obtain q where q: "m = q * g" by (metis dvd_def mult.commute)
  have "x / of_int g \<le> of_int q"
    using xm g by (simp add: q pos_divide_le_eq)
  then have "\<lceil>x / of_int g\<rceil> \<le> q" by (simp add: ceiling_le_iff)
  then show "spec_ceil_to_multiple x g \<le> m"
    using assms by (simp add: spec_ceil_to_multiple_def q mult_right_mono)
qed





section \<open>Properties of the retrieval evaluator\<close>

subsection \<open>The loop body\<close>

lemma body_miss:
  assumes "top_index \<notin> set good_inds"
    and "old_recall st = recall_of good_inds (intersect_size st)"
  shows "loc_ap (compute_ap_body good_inds n top_index st) = loc_ap st"
    and "loc_cmc (compute_ap_body good_inds n top_index st) = loc_cmc st"
    and "intersect_size (compute_ap_body good_inds n top_index st) = intersect_size st"
    and "num_good_now (compute_ap_body good_inds n top_index st) = num_good_now st"
  using assms by (simp_all add: compute_ap_body_def recall_of_def Let_def)

lemma body_recall:
  "old_recall (compute_ap_body good_inds n top_index st)
     = recall_of good_inds (intersect_size (compute_ap_body good_inds n top_index st))"
  by (simp add: compute_ap_body_def recall_of_def Let_def)

lemma body_j: "j (compute_ap_body good_inds n top_index st) = j st + 1"
  by (simp add: compute_ap_body_def Let_def)

lemma body_hit:
  assumes "top_index \<in> set good_inds"
  shows "num_good_now (compute_ap_body good_inds n top_index st) = num_good_now st + 1"
  using assms by (simp add: compute_ap_body_def Let_def)

lemma full_walk_miss:
  assumes "\<forall>p \<in> set rest. snd p \<notin> set good_inds"
    and "old_recall st = recall_of good_inds (intersect_size st)"
  shows "loc_ap (full_walk_loop good_inds rest st) = loc_ap st
       \<and> loc_cmc (full_walk_loop good_inds rest st) = loc_cmc st"
  using assms
proof (induction rest arbitrary: st)
  case Nil
  then show ?case by simp
next
  case (Cons p rest)
  obtain n t where p: "p = (n, t)" by (cases p)
  have miss: "t \<notin> set good_inds" using Cons.prems(1) p by simp
  let ?st = "compute_ap_body good_inds n t st"
  have "loc_ap (full_walk_loop good_inds rest ?st) = loc_ap ?st
       \<and> loc_cmc (full_walk_loop good_inds rest ?st) = loc_cmc ?st"
    using Cons.prems(1) by (intro Cons.IH) (simp_all add: body_recall)
  then show ?case
    using body_miss(1,2)[OF miss Cons.prems(2)] by (simp add: p)
qed

lemma break_equiv_gen:
  assumes "distinct (map snd rest)"
    and "finite S" and "S \<inter> set (map snd rest) = {}"
    and "num_good_now st = card (S \<inter> set good_inds)"
    and "old_recall st = recall_of good_inds (intersect_size st)"
  shows "loc_ap (compute_ap_loop good_inds rest st) = loc_ap (full_walk_loop good_inds rest st)
       \<and> loc_cmc (compute_ap_loop good_inds rest st) = loc_cmc (full_walk_loop good_inds rest st)"
  using assms
proof (induction rest arbitrary: st S)
  case Nil
  then show ?case by simp
next
  case (Cons p rest)
  obtain n t where p: "p = (n, t)" by (cases p)
  let ?st = "compute_ap_body good_inds n t st"
  have tS: "t \<notin> S" and trest: "t \<notin> set (map snd rest)"
    using Cons.prems(1,3) p by auto
  have inv: "num_good_now ?st = card (insert t S \<inter> set good_inds)"
  proof (cases "t \<in> set good_inds")
    case True
    then have "insert t S \<inter> set good_inds = insert t (S \<inter> set good_inds)" by auto
    moreover have "t \<notin> S \<inter> set good_inds" using tS by simp
    ultimately show ?thesis
      using True Cons.prems(2,4) by (simp add: body_hit)
  next
    case False
    then have "insert t S \<inter> set good_inds = S \<inter> set good_inds" by auto
    then show ?thesis
      using False Cons.prems(4) by (simp add: compute_ap_body_def Let_def)
  qed
  show ?case
  proof (cases "num_good_now ?st = length good_inds")
    case True
    have "card (set good_inds) \<le> length good_inds" by (rule card_length)
    moreover have "card (insert t S \<inter> set good_inds) \<le> card (set good_inds)"
      by (intro card_mono) auto
    ultimately have "card (insert t S \<inter> set good_inds) = card (set good_inds)"
      using True inv by simp
    then have "insert t S \<inter> set good_inds = set good_inds"
      by (intro card_subset_eq) auto
    then have sub: "set good_inds \<subseteq> insert t S" by auto
    have "\<forall>q \<in> set rest. snd q \<notin> set good_inds"
      using sub Cons.prems(3) trest p by auto
    then have "loc_ap (full_walk_loop good_inds rest ?st) = loc_ap ?st
       \<and> loc_cmc (full_walk_loop good_inds rest ?st) = loc_cmc ?st"
      by (intro full_walk_miss) (simp_all add: body_recall)
    then show ?thesis using True by (simp add: p)
  next
    case False
    have "loc_ap (compute_ap_loop good_inds rest ?st) = loc_ap (full_walk_loop good_inds rest ?st)
       \<and> loc_cmc (compute_ap_loop good_inds rest ?st) = loc_cmc (full_walk_loop good_inds rest ?st)"
    proof (rule Cons.IH[where S = "insert t S"])
      show "distinct (map snd rest)" using Cons.prems(1) by simp
      show "finite (insert t S)" using Cons.prems(2) by simp
      show "insert t S \<inter> set (map snd rest) = {}" using Cons.prems(1,3) p by auto
      show "num_good_now ?st = card (insert t S \<inter> set good_inds)" by (rule inv)
      show "old_recall ?st = recall_of good_inds (intersect_size ?st)" by (rule body_recall)
    qed
    then show ?thesis using False by (simp add: p)
  qed
qed

lemma map_snd_enumerate: "map snd (enumerate k xs) = xs"
  by (simp add: enumerate_eq_zip)

text \<open>
  Claim C7.  For every list of good indices and every ranked gallery list (a list in which
  no gallery position occurs twice, as \<open>top_indices_of_distinct\<close> below shows for the
  list the evaluator builds), \<open>_compute_ap\<close> returns the same AP value and the same CMC
  vector as the variant without the early stop that walks every position.
\<close>

theorem early_stop_is_optimisation:
  assumes "distinct top_inds"
  shows "compute_ap good_inds top_inds = compute_ap_full_walk good_inds top_inds"
proof -
  have "loc_ap (compute_ap_loop good_inds (enumerate 0 top_inds) (compute_ap_init top_inds))
          = loc_ap (full_walk_loop good_inds (enumerate 0 top_inds) (compute_ap_init top_inds))
      \<and> loc_cmc (compute_ap_loop good_inds (enumerate 0 top_inds) (compute_ap_init top_inds))
          = loc_cmc (full_walk_loop good_inds (enumerate 0 top_inds) (compute_ap_init top_inds))"
  proof (rule break_equiv_gen[where S = "{}"])
    show "distinct (map snd (enumerate 0 top_inds))" using assms by (simp add: map_snd_enumerate)
  qed (simp_all add: compute_ap_init_def recall_of_def)
  then show ?thesis
    by (simp add: compute_ap_def compute_ap_full_walk_def compute_ap_final_def Let_def)
qed

theorem early_stop_is_optimisation_witness:
  "distinct [2, 0, 1 :: nat] \<and> compute_ap [0, 2] [2, 0, 1] = compute_ap_full_walk [0, 2] [2, 0, 1]"
  using early_stop_is_optimisation[of "[2, 0, 1]" "[0, 2]"] by simp

subsection \<open>Queries without a match\<close>

lemma top_indices_of_perm: "mset (top_indices_of scores) = mset [0..<length scores]"
proof -
  have "top_indices_of scores = map fst (py_sort_key snd False (enumerate 0 scores))"
    by (simp add: top_indices_of_def py_slice_to_def py_sort_key_length Let_def)
  moreover have "mset (map fst (py_sort_key snd False (enumerate 0 scores)))
      = mset (map fst (enumerate 0 scores))"
    by (simp only: mset_map py_sort_key_mset)
  ultimately show ?thesis by simp
qed

lemma top_indices_of_distinct: "distinct (top_indices_of scores)"
  using top_indices_of_perm by (metis distinct_upt mset_eq_imp_distinct_iff)

lemma top_indices_of_length: "length (top_indices_of scores) = length scores"
  using top_indices_of_perm by (metis length_upt mset_eq_length minus_nat.diff_0)

lemma good_indices_of_empty:
  assumes "py_int_of_float query_label \<notin> py_int_of_float ` set gallery_labels"
  shows "good_indices_of gallery_labels query_label = []"
proof -
  have "\<forall>p \<in> set (enumerate 0 gallery_labels). py_int_of_float (snd p) \<noteq> py_int_of_float query_label"
    using assms by (auto simp: in_set_enumerate_eq) (metis image_eqI nth_mem)
  then have "filter (\<lambda>(gallery_id, gallery_label). py_int_of_float gallery_label
        = py_int_of_float query_label) (enumerate 0 gallery_labels) = []"
    by (auto simp: filter_empty_conv)
  then show ?thesis by (simp add: good_indices_of_def Let_def)
qed

lemma compute_ap_final_no_good:
  "loc_ap (compute_ap_final [] top_inds) = 0
   \<and> loc_cmc (compute_ap_final [] top_inds) = replicate (length top_inds) 0
   \<and> j (compute_ap_final [] top_inds) = min 1 (length top_inds)"
proof (cases top_inds)
  case Nil
  then show ?thesis by (simp add: compute_ap_final_def compute_ap_init_def)
next
  case (Cons t ts)
  then have "enumerate 0 top_inds = (0, t) # enumerate 1 ts" by simp
  then show ?thesis
    by (simp add: compute_ap_final_def compute_ap_init_def compute_ap_body_def Let_def Cons)
qed

text \<open>
  Claim C3, as the code has it.  For a query whose label matches no gallery label the
  evaluator yields AP = 0 and an all-zero CMC vector with one entry per gallery item, and
  no step of it can raise.  The early stop does trigger: with no good index,
  \<open>num_good_now == num_good_total\<close> holds as \<open>0 == 0\<close> at the end of the first
  execution of the loop body, so the loop walks one position (none for an empty gallery),
  not the whole ranked list.
\<close>

theorem no_match_query:
  assumes "py_int_of_float query_label \<notin> py_int_of_float ` set gallery_labels"
  shows "query_metrics gallery_labels query_label scores = (0, replicate (length scores) 0)
    \<and> query_walk_length gallery_labels query_label scores = min 1 (length scores)"
  using compute_ap_final_no_good[of "top_indices_of scores"]
  by (simp add: query_metrics_def query_walk_length_def compute_ap_def Let_def
      good_indices_of_empty[OF assms] top_indices_of_length)

theorem no_match_query_witness:
  "py_int_of_float 2 \<notin> py_int_of_float ` set [1, 1, 1]
   \<and> query_metrics [1, 1, 1] 2 [1 / 2, 1 / 4, 3 / 4] = (0, [0, 0, 0])
   \<and> query_walk_length [1, 1, 1] 2 [1 / 2, 1 / 4, 3 / 4] = 1"
proof -
  have h: "py_int_of_float 2 \<notin> py_int_of_float ` set [1, 1, 1]"
    by (simp add: py_int_of_float_def)
  show ?thesis
    using h no_match_query[OF h, of "[1 / 2, 1 / 4, 3 / 4]"] by (simp add: numeral_3_eq_3)
qed

text \<open>
  Three gallery items of label 1 and a query of label 2: the loop body runs once, not
  three times.
\<close>

theorem no_match_query_stops_early:
  "query_walk_length [1, 1, 1] 2 [1 / 2, 1 / 4, 3 / 4] = 1
   \<and> query_walk_length [1, 1, 1] 2 [1 / 2, 1 / 4, 3 / 4] \<noteq> length [1 / 2, 1 / 4, 3 / 4 :: rat]"
  by code_simp


section \<open>Properties of the training loop\<close>

lemma update_best_frame:
  "train_iter (update_best r st) = train_iter st"
  "snapshots (update_best r st) = snapshots st"
  by (simp_all add: update_best_def split: option.splits)

lemma meta_iteration_Inr:
  assumes "meta_iteration p tr st = Inr st'"
  shows "\<exists>r. test_model tr (train_iter st) = Inr r
    \<and> st' = (update_best r (st\<lparr>difficulty := min (max_difficulty p)
          (of_int (train_iter st) * max_difficulty p / of_int (max_difficulty_iter p))\<rparr>))
          \<lparr>snapshots := snapshots st @ [train_iter st], train_iter := train_iter st + 1\<rparr>"
proof -
  have nz: "max_difficulty_iter p \<noteq> 0"
    using assms by (auto simp: meta_iteration_def)
  define st1 where "st1 = st\<lparr>difficulty := min (max_difficulty p)
          (of_int (train_iter st) * max_difficulty p / of_int (max_difficulty_iter p))\<rparr>"
  have t1: "train_iter st1 = train_iter st" "snapshots st1 = snapshots st"
    by (simp_all add: st1_def)
  obtain r where r: "test_model tr (train_iter st) = Inr r"
    using assms nz by (cases "test_model tr (train_iter st)") (simp_all add: meta_iteration_def Let_def)
  obtain ids where ids: "find_hardest_samples (num_hardest p)
      (estimate_losses tr (train_iter st)) = Inr ids"
    using assms nz r
    by (cases "find_hardest_samples (num_hardest p) (estimate_losses tr (train_iter st))")
      (simp_all add: meta_iteration_def Let_def update_best_frame)
  obtain steps where steps: "train (virtual_batch_size p) ids = Inr steps"
    using assms nz r ids
    by (cases "train (virtual_batch_size p) ids")
      (simp_all add: meta_iteration_def Let_def update_best_frame)
  have "st' = (update_best r st1)
          \<lparr>snapshots := snapshots st @ [train_iter st], train_iter := train_iter st + 1\<rparr>"
    using assms nz r ids steps
    by (simp add: meta_iteration_def Let_def update_best_frame st1_def[symmetric] t1)
  then show ?thesis using r unfolding st1_def by blast
qed

lemma meta_iteration_effect:
  assumes "meta_iteration p tr st = Inr st'"
  shows "snapshots st' = snapshots st @ [train_iter st]"
    and "train_iter st' = train_iter st + 1"
    and "test_model tr (train_iter st) = Inr (Some acc) \<Longrightarrow> best_rank1_acc st < acc
          \<Longrightarrow> best_rank1_acc st' = acc \<and> best_iter st' = train_iter st - 1"
proof -
  obtain r where r: "test_model tr (train_iter st) = Inr r"
    and st': "st' = (update_best r (st\<lparr>difficulty := min (max_difficulty p)
          (of_int (train_iter st) * max_difficulty p / of_int (max_difficulty_iter p))\<rparr>))
          \<lparr>snapshots := snapshots st @ [train_iter st], train_iter := train_iter st + 1\<rparr>"
    using meta_iteration_Inr[OF assms] by blast
  show "snapshots st' = snapshots st @ [train_iter st]" by (simp add: st')
  show "train_iter st' = train_iter st + 1" by (simp add: st')
  assume "test_model tr (train_iter st) = Inr (Some acc)" and "best_rank1_acc st < acc"
  then show "best_rank1_acc st' = acc \<and> best_iter st' = train_iter st - 1"
    using r by (simp add: st' update_best_def)
qed

text \<open>
  Claim C4, as the code has it.  Every meta-iteration that completes writes a snapshot and
  advances \<open>train_iter\<close> by one, whatever the evaluation returned; and when the
  evaluation's rank-1 accuracy is greater than the running best, \<open>best_rank1_acc\<close>
  becomes that value and \<open>best_iter\<close> becomes \<open>train_iter - 1\<close>, the meta-iteration
  before the one in which the evaluation ran (the one whose training produced the
  evaluated model).
\<close>

theorem best_iter_update:
  assumes "meta_iteration p tr st = Inr st'"
  shows "snapshots st' = snapshots st @ [train_iter st] \<and> train_iter st' = train_iter st + 1
    \<and> (\<forall>acc. test_model tr (train_iter st) = Inr (Some acc) \<and> best_rank1_acc st < acc
          \<longrightarrow> best_rank1_acc st' = acc \<and> best_iter st' = train_iter st - 1)"
  using meta_iteration_effect[OF assms] by blast

theorem best_iter_update_witness:
  "meta_iteration
     \<lparr>max_iter = 5, max_difficulty = 1, max_difficulty_iter = 500,
      num_hardest = 2, virtual_batch_size = 2\<rparr>
     \<lparr>test_model = (\<lambda>t. Inr (Some (1 / 2))), estimate_losses = (\<lambda>t. [0, 0])\<rparr>
     \<lparr>train_iter = 3, difficulty = 0, best_rank1_acc = 0, best_iter = 0, snapshots = [0, 1, 2]\<rparr>
   = Inr \<lparr>train_iter = 4, difficulty = 3 / 500, best_rank1_acc = 1 / 2, best_iter = 2,
          snapshots = [0, 1, 2, 3]\<rparr>
   \<and> snapshots \<lparr>train_iter = 4, difficulty = 3 / 500, best_rank1_acc = 1 / 2, best_iter = 2,
          snapshots = [0, 1, 2, 3]\<rparr> = [0, 1, 2] @ [3]
   \<and> best_iter \<lparr>train_iter = 4, difficulty = 3 / 500, best_rank1_acc = 1 / 2, best_iter = 2,
          snapshots = [0, 1, 2, 3]\<rparr> = 3 - 1"
proof -
  have h: "meta_iteration
     \<lparr>max_iter = 5, max_difficulty = 1, max_difficulty_iter = 500,
      num_hardest = 2, virtual_batch_size = 2\<rparr>
     \<lparr>test_model = (\<lambda>t. Inr (Some (1 / 2))), estimate_losses = (\<lambda>t. [0, 0])\<rparr>
     \<lparr>train_iter = 3, difficulty = 0, best_rank1_acc = 0, best_iter = 0, snapshots = [0, 1, 2]\<rparr>
   = Inr \<lparr>train_iter = 4, difficulty = 3 / 500, best_rank1_acc = 1 / 2, best_iter = 2,
          snapshots = [0, 1, 2, 3]\<rparr>"
    by code_simp
  show ?thesis using h best_iter_update[OF h] by simp
qed

text \<open>
  An evaluation in meta-iteration 3 that beats the running best records
  \<open>best_iter = 2\<close>, not the current value 3 of \<open>train_iter\<close>.
\<close>

theorem best_iter_is_previous_iteration:
  "map_sum id best_iter
     (meta_iteration
        \<lparr>max_iter = 5, max_difficulty = 1, max_difficulty_iter = 500,
         num_hardest = 2, virtual_batch_size = 2\<rparr>
        \<lparr>test_model = (\<lambda>t. Inr (Some (1 / 2))), estimate_losses = (\<lambda>t. [0, 0])\<rparr>
        \<lparr>train_iter = 3, difficulty = 0, best_rank1_acc = 0, best_iter = 0,
         snapshots = [0, 1, 2]\<rparr>) = Inr 2"
  by code_simp

text \<open>
  Over a whole run that ends without an exception, the snapshots are exactly one per
  meta-iteration, independent of the evaluations.
\<close>

lemma solve_loop_snapshots:
  assumes "solve_loop p tr st = Inr st'"
  shows "snapshots st' = snapshots st @ [train_iter st..max_iter p - 1]"
  using assms
proof (induction p tr st rule: solve_loop.induct)
  case (1 p tr st)
  show ?case
  proof (cases "train_iter st < max_iter p")
    case False
    then show ?thesis using "1.prems" by (simp add: solve_loop.simps[of p tr st])
  next
    case True
    then obtain st1 where m: "meta_iteration p tr st = Inr st1"
        and l: "solve_loop p tr st1 = Inr st'"
      using "1.prems" by (cases "meta_iteration p tr st") (simp_all add: solve_loop.simps[of p tr st])
    have s: "snapshots st1 = snapshots st @ [train_iter st]" "train_iter st1 = train_iter st + 1"
      using meta_iteration_effect(1,2)[OF m] by simp_all
    have "snapshots st' = snapshots st1 @ [train_iter st1..max_iter p - 1]"
      using "1.IH"[OF True m l] .
    then show ?thesis
      using True s by (simp add: upto_rec1[of "train_iter st"])
  qed
qed


section \<open>Properties of the corpus index\<close>

lemma load_line_fails: "isl (load_line i line c) = line_fails line"
  by (auto simp: load_line_def line_fails_def Let_def split: option.splits)

lemma load_lines_fails:
  "isl (load_lines i all_lines c) = (\<exists>line \<in> set all_lines. line_fails line)"
proof (induction all_lines arbitrary: i c)
  case Nil
  then show ?case by simp
next
  case (Cons line all_lines)
  show ?case
  proof (cases "load_line i line c")
    case (Inl e)
    then have "line_fails line" using load_line_fails[of i line c] by simp
    then show ?thesis using Inl by simp
  next
    case (Inr c')
    then have "\<not> line_fails line" using load_line_fails[of i line c] by simp
    then show ?thesis using Inr Cons.IH[of "i + 1" c'] by simp
  qed
qed

text \<open>
  Claim C5, as the code has it.  Loading a manifest fails exactly when some line has
  fewer than two whitespace-separated tokens (\<open>IndexError\<close>) or its second token is not
  an integer (\<open>ValueError\<close>).  Tokens after the second are never read, so a line with
  three or more tokens, the second an integer, is accepted.
\<close>

theorem load_fails_iff:
  "isl (load all_lines)
     = (\<exists>line \<in> set all_lines. length (py_split (py_strip line)) < 2
          \<or> py_int_of_string (py_split (py_strip line) ! 1) = None)"
  by (simp add: load_def load_lines_fails line_fails_def)

text \<open>
  A line of three tokens is not a line of exactly two tokens, and the manifest that
  consists of it loads.
\<close>

theorem load_accepts_extra_tokens:
  "\<not> spec_line_ok ''img.jpg 7 extra'' \<and> \<not> isl (load [''img.jpg 7 extra''])
   \<and> py_split ''img.jpg 7 extra'' = [''img.jpg'', ''7'', ''extra'']"
  by code_simp

section \<open>Properties of the balanced sampler\<close>

lemma load_line_inv:
  assumes "load_line i line c = Inr c'" and "labels_nonempty c"
  shows "labels_nonempty c'" and "dom (ids_by_label c') \<noteq> {}"
proof -
  obtain lbl where c': "ids_by_label c' = (ids_by_label c)(lbl \<mapsto> get_ids_by_labels c lbl @ [i])"
    using assms(1) by (auto simp: load_line_def Let_def split: if_splits option.splits)
  show "labels_nonempty c'"
    using assms(2) unfolding labels_nonempty_def c' by (simp add: fun_upd_def)
  show "dom (ids_by_label c') \<noteq> {}" by (simp add: c')
qed

lemma load_line_dom:
  assumes "load_line i line c = Inr c'"
  shows "dom (ids_by_label c) \<subseteq> dom (ids_by_label c')"
  using assms
  by (auto simp: load_line_def Let_def split: if_splits option.splits)

lemma load_lines_inv:
  assumes "load_lines i all_lines c = Inr c'" and "labels_nonempty c"
  shows "labels_nonempty c' \<and> dom (ids_by_label c) \<subseteq> dom (ids_by_label c')
    \<and> (all_lines \<noteq> [] \<longrightarrow> dom (ids_by_label c') \<noteq> {})"
  using assms
proof (induction all_lines arbitrary: i c)
  case Nil
  then show ?case by simp
next
  case (Cons line all_lines)
  then obtain c1 where c1: "load_line i line c = Inr c1"
      and rest: "load_lines (i + 1) all_lines c1 = Inr c'"
    by (cases "load_line i line c") simp_all
  have inv1: "labels_nonempty c1" and ne1: "dom (ids_by_label c1) \<noteq> {}"
    using load_line_inv[OF c1 Cons.prems(2)] by simp_all
  have "labels_nonempty c' \<and> dom (ids_by_label c1) \<subseteq> dom (ids_by_label c')"
    using Cons.IH[OF rest inv1] by simp
  then show ?case using ne1 load_line_dom[OF c1] by auto
qed

lemma load_inv:
  assumes "load all_lines = Inr c" and "all_lines \<noteq> []"
  shows "labels_nonempty c" and "dom (ids_by_label c) \<noteq> {}"
  using load_lines_inv[of 0 all_lines empty_corpus c] assms
  by (simp_all add: load_def labels_nonempty_def empty_corpus_def)

lemma random_choice_mem:
  "label_ids \<noteq> [] \<Longrightarrow> random_choice rnd k label_ids \<in> set label_ids"
  by (simp add: random_choice_def)

lemma sweep_append:
  "\<exists>new. sweep c rnd all_labels data_ids = data_ids @ new
     \<and> length new = length (live_labels c all_labels)
     \<and> (\<forall>lbl \<in> set (live_labels c all_labels). \<exists>i \<in> set new. i \<in> set (get_ids_by_labels c lbl))"
proof (induction all_labels arbitrary: data_ids)
  case Nil
  then show ?case by (simp add: live_labels_def)
next
  case (Cons lbl all_labels)
  show ?case
  proof (cases "get_ids_by_labels c lbl = []")
    case True
    then show ?thesis using Cons.IH[of data_ids] by (simp add: live_labels_def)
  next
    case False
    define x where "x = random_choice rnd (length data_ids) (get_ids_by_labels c lbl)"
    have xin: "x \<in> set (get_ids_by_labels c lbl)"
      unfolding x_def using False by (rule random_choice_mem)
    obtain new where new: "sweep c rnd all_labels (data_ids @ [x]) = (data_ids @ [x]) @ new"
        "length new = length (live_labels c all_labels)"
        "\<forall>l \<in> set (live_labels c all_labels). \<exists>i \<in> set new. i \<in> set (get_ids_by_labels c l)"
      using Cons.IH[of "data_ids @ [x]"] by blast
    have eq: "sweep c rnd (lbl # all_labels) data_ids = data_ids @ (x # new)"
      using False new(1) by (simp add: x_def Let_def)
    have live: "live_labels c (lbl # all_labels) = lbl # live_labels c all_labels"
      using False by (simp add: live_labels_def)
    have "length (x # new) = length (live_labels c (lbl # all_labels))"
      using new(2) live by simp
    moreover have "\<forall>l \<in> set (live_labels c (lbl # all_labels)).
        \<exists>i \<in> set (x # new). i \<in> set (get_ids_by_labels c l)"
      using new(3) xin live by auto
    ultimately show ?thesis using eq by blast
  qed
qed

lemma sample_loop_returns:
  assumes "live_labels c all_labels \<noteq> []"
  shows "\<exists>r more. sample_loop c rnd all_labels num_samples data_ids = Some r
     \<and> num_samples \<le> int (length r)
     \<and> (if int (length data_ids) < num_samples
         then r = sweep c rnd all_labels data_ids @ more else r = data_ids)"
proof (induction "nat (num_samples - int (length data_ids))" arbitrary: data_ids
    rule: less_induct)
  case less
  show ?case
  proof (cases "int (length data_ids) < num_samples")
    case False
    then show ?thesis by (subst sample_loop.simps) simp
  next
    case True
    define d' where "d' = sweep c rnd all_labels data_ids"
    obtain new where new: "d' = data_ids @ new" "length new = length (live_labels c all_labels)"
      using sweep_append[of c rnd all_labels data_ids] unfolding d'_def by blast
    have "0 < length new" using new(2) assms by simp
    then have "nat (num_samples - int (length d')) < nat (num_samples - int (length data_ids))"
      using True new(1) by simp
    from less[OF this] obtain r more where r:
      "sample_loop c rnd all_labels num_samples d' = Some r" "num_samples \<le> int (length r)"
      "if int (length d') < num_samples then r = sweep c rnd all_labels d' @ more else r = d'"
      by blast
    have "\<exists>more'. r = d' @ more'"
    proof (cases "int (length d') < num_samples")
      case True
      obtain new' where "sweep c rnd all_labels d' = d' @ new'"
        using sweep_append[of c rnd all_labels d'] by blast
      then show ?thesis using r(3) True by simp
    next
      case False
      then show ?thesis using r(3) by simp
    qed
    then obtain more' where "r = d' @ more'" by blast
    moreover have "sample_loop c rnd all_labels num_samples data_ids = Some r"
      using True r(1) by (subst sample_loop.simps) (simp add: d'_def)
    ultimately show ?thesis using True r(2) unfolding d'_def by auto
  qed
qed

lemma loaded_labels_live:
  assumes "load all_lines = Inr c" and "all_lines \<noteq> []"
    and "set all_labels = dom (ids_by_label c)"
  shows "live_labels c all_labels = all_labels" and "all_labels \<noteq> []"
proof -
  have inv: "labels_nonempty c" and ne: "dom (ids_by_label c) \<noteq> {}"
    using load_inv[OF assms(1,2)] by simp_all
  have "\<forall>lbl \<in> set all_labels. get_ids_by_labels c lbl \<noteq> []"
    using inv assms(3) by (auto simp: labels_nonempty_def get_ids_by_labels_def)
  then show "live_labels c all_labels = all_labels"
    by (simp add: live_labels_def)
  show "all_labels \<noteq> []" using ne assms(3) by (metis empty_set)
qed

lemma ex_load:
  "load [''a 1'', ''b 2''] =
     Inr \<lparr>all_samples = [0 \<mapsto> \<lparr>path = ''a'', label = 1\<rparr>, 1 \<mapsto> \<lparr>path = ''b'', label = 2\<rparr>],
          ids_by_label = [1 \<mapsto> [0], 2 \<mapsto> [1]]\<rparr>"
proof -
  have s: "py_split (py_strip ''a 1'') = [''a'', ''1'']" "py_split (py_strip ''b 2'') = [''b'', ''2'']"
    by code_simp+
  have i: "py_int_of_string ''1'' = Some 1" "py_int_of_string ''2'' = Some 2"
    by code_simp+
  show ?thesis
    by (simp add: load_def load_line_def s i empty_corpus_def get_ids_by_labels_def)
qed

text \<open>
  Claim C9.  For the corpus of every manifest with at least one line that loads, every
  order \<open>all_labels\<close> the shuffle can leave the labels in, every outcome \<open>rnd\<close> of the
  random choices and every \<open>num_images\<close> of at least 1 (so that the target count
  \<open>label_count * num_images\<close> is at least the label count), \<open>_sample_data_ids\<close>
  returns, the sequence it returns has exactly the target count of ids, and for every
  label (each has at least one id) it contains an id of that label.
\<close>

theorem sample_data_ids_balanced:
  assumes "load all_lines = Inr c" and "all_lines \<noteq> []"
    and "distinct all_labels" and "set all_labels = dom (ids_by_label c)"
    and "1 \<le> num_images"
  shows "\<exists>ids. sample_data_ids c rnd all_labels (init_num_samples c num_images) = Some ids
     \<and> int (length ids) = init_num_samples c num_images
     \<and> int (get_num_labels c) \<le> init_num_samples c num_images
     \<and> (\<forall>lbl \<in> set all_labels. get_ids_by_labels c lbl \<noteq> []
           \<and> (\<exists>i \<in> set ids. i \<in> set (get_ids_by_labels c lbl)))"
proof -
  define n where "n = init_num_samples c num_images"
  have live: "live_labels c all_labels = all_labels" and ne: "all_labels \<noteq> []"
    using loaded_labels_live[OF assms(1,2,4)] by simp_all
  have cnt: "get_num_labels c = length all_labels"
    using assms(3,4) by (metis distinct_card get_num_labels_def)
  have n_eq: "n = int (length all_labels) * num_images"
    by (simp add: n_def init_num_samples_def cnt)
  have len_pos: "1 \<le> int (length all_labels)" using ne by (cases all_labels) simp_all
  have "int (length all_labels) * 1 \<le> int (length all_labels) * num_images"
    using assms(5) by (intro mult_left_mono) simp_all
  then have n_ge: "int (length all_labels) \<le> n" by (simp add: n_eq)
  then have n_pos: "0 < n" using len_pos by simp
  obtain r more where r: "sample_loop c rnd all_labels n [] = Some r" "n \<le> int (length r)"
      "r = sweep c rnd all_labels [] @ more"
    using sample_loop_returns[of c all_labels rnd n "[]"] live ne n_pos by auto
  obtain new where new: "sweep c rnd all_labels [] = new" "length new = length all_labels"
      "\<forall>lbl \<in> set all_labels. \<exists>i \<in> set new. i \<in> set (get_ids_by_labels c lbl)"
    using sweep_append[of c rnd all_labels "[]"] live by auto
  define ids where "ids = py_slice_to r n"
  have ids: "ids = take (nat n) r" using n_pos by (simp add: ids_def py_slice_to_def)
  have res: "sample_data_ids c rnd all_labels n = Some ids"
    by (simp add: sample_data_ids_def r(1) ids_def)
  have len: "int (length ids) = n" using r(2) n_pos by (simp add: ids)
  have "length new \<le> nat n" using new(2) n_ge by simp
  then have "take (nat n) r = new @ take (nat n - length new) more"
    using r(3) new(1) by simp
  then have sub: "set new \<subseteq> set ids" by (simp add: ids)
  have nonempty: "\<forall>lbl \<in> set all_labels. get_ids_by_labels c lbl \<noteq> []"
    using live by (metis (mono_tags, lifting) filter_id_conv live_labels_def)
  have cov: "\<forall>lbl \<in> set all_labels. get_ids_by_labels c lbl \<noteq> []
           \<and> (\<exists>i \<in> set ids. i \<in> set (get_ids_by_labels c lbl))"
    using new(3) sub nonempty by blast
  show ?thesis
    using res len cov n_ge unfolding n_def[symmetric] cnt by blast
qed

theorem sample_data_ids_balanced_witness:
  "load [''a 1'', ''b 2''] =
     Inr \<lparr>all_samples = [0 \<mapsto> \<lparr>path = ''a'', label = 1\<rparr>, 1 \<mapsto> \<lparr>path = ''b'', label = 2\<rparr>],
          ids_by_label = [1 \<mapsto> [0], 2 \<mapsto> [1]]\<rparr>
   \<and> [''a 1'', ''b 2''] \<noteq> [] \<and> distinct [2, 1 :: int] \<and> (1 :: int) \<le> 2
   \<and> (\<exists>ids. sample_data_ids
          \<lparr>all_samples = [0 \<mapsto> \<lparr>path = ''a'', label = 1\<rparr>, 1 \<mapsto> \<lparr>path = ''b'', label = 2\<rparr>],
           ids_by_label = [1 \<mapsto> [0], 2 \<mapsto> [1]]\<rparr> (\<lambda>k. k) [2, 1] 4 = Some ids
        \<and> length ids = 4 \<and> 0 \<in> set ids \<and> 1 \<in> set ids)"
proof -
  let ?c = "\<lparr>all_samples = [0 \<mapsto> \<lparr>path = ''a'', label = 1\<rparr>, 1 \<mapsto> \<lparr>path = ''b'', label = 2\<rparr>],
          ids_by_label = [1 \<mapsto> [0::nat], 2 \<mapsto> [1]]\<rparr>"
  have h: "load [''a 1'', ''b 2''] = Inr ?c" by (rule ex_load)
  have d: "set [2, 1 :: int] = dom (ids_by_label ?c)" by auto
  have n: "init_num_samples ?c 2 = 4"
    by (simp add: init_num_samples_def get_num_labels_def)
  have g: "get_ids_by_labels ?c 1 = [0]" "get_ids_by_labels ?c 2 = [1]"
    by (simp_all add: get_ids_by_labels_def)
  show ?thesis
    using h sample_data_ids_balanced[OF h _ _ d, of 2 "\<lambda>k. k"] n g by auto
qed


end
